theory Spec2Isabelle
  imports Complex_Main
begin

section \<open>Waiting times of a price series (Inverse\_Statistic.py)\<close>

text \<open>
  The function \<^verbatim>\<open>calculate_waiting_times_both_directions(data, increments)\<close> of
  \<^verbatim>\<open>src/Inverse_Statistic.py\<close> (lines 122 to 162) is embedded here. The array
  \<^verbatim>\<open>data\<close> is a numpy array of finite float64 values (line 77 builds it from
  Python floats), and \<^verbatim>\<open>data[i] + increment\<close> is a float64 addition: the exact sum,
  rounded to the nearest float64. The increments are numbers that numpy converts to
  float64 for that addition, and are float64 values here. A waiting time is what the
  source stores in its lists:
  the integer that \<^verbatim>\<open>np.argmax\<close> returned, or \<^verbatim>\<open>np.inf\<close>.
\<close>

subsection \<open>float64 values and their arithmetic\<close>

text \<open>
  Rounding a real number to the nearest integer, a tie going to the even neighbour.
\<close>

definition round_half_even :: "real \<Rightarrow> int" where
  "round_half_even r =
     (let n = \<lfloor>r\<rfloor>; d = r - of_int n
      in if d < 1 / 2 then n else if 1 / 2 < d then n + 1 else if even n then n else n + 1)"

text \<open>
  The exponent of the unit in the last place of a float64 near \<open>x \<noteq> 0\<close>: the
  significand has 53 bits, so when \<open>\<bar>x\<bar>\<close> lies between 2 to the power \<open>e\<close> and 2 to the
  power \<open>e + 1\<close>, neighbouring values are 2 to the power \<open>e - 52\<close> apart; in the
  subnormal range, below 2 to the power \<open>- 1022\<close>, the spacing stays 2 to the power
  \<open>- 1074\<close>.
\<close>

definition ulp_exponent :: "real \<Rightarrow> int" where
  "ulp_exponent x = max (\<lfloor>log 2 \<bar>x\<bar>\<rfloor> - 52) (- 1074)"

text \<open>
  Rounding to nearest, ties to even, with 53 bits of precision and an unbounded exponent
  above: the nearest multiple of the unit in the last place.
\<close>

definition round64 :: "real \<Rightarrow> real" where
  "round64 x =
     (if x = 0 then 0
      else of_int (round_half_even (x / 2 powr of_int (ulp_exponent x)))
             * 2 powr of_int (ulp_exponent x))"

text \<open>The largest finite float64.\<close>

definition max_float64 :: real where
  "max_float64 = (2 ^ 53 - 1) * 2 ^ 971"

text \<open>
  The finite float64 values, as the real numbers they denote: \<open>val x\<close> is the number,
  and \<open>float64_of r\<close> is the float64 that denotes \<open>r\<close>, for \<open>r\<close> representable.
\<close>

typedef float64 = "{x :: real. round64 x = x \<and> \<bar>x\<bar> \<le> max_float64}"
  morphisms val float64_of
  by (rule exI[of _ 0]) (simp add: round64_def max_float64_def)

text \<open>
  The result of an addition or subtraction of two finite float64 values: the rounded
  exact result, or an infinity when that exceeds the largest finite float64.
\<close>

datatype float64_or_inf = Finite real | Pos_inf | Neg_inf

definition overflow :: "real \<Rightarrow> float64_or_inf" where
  "overflow r =
     (if max_float64 < r then Pos_inf else if r < - max_float64 then Neg_inf else Finite r)"

definition float_add :: "float64 \<Rightarrow> float64 \<Rightarrow> float64_or_inf" where
  "float_add x y = overflow (round64 (val x + val y))"

definition float_sub :: "float64 \<Rightarrow> float64 \<Rightarrow> float64_or_inf" where
  "float_sub x y = overflow (round64 (val x - val y))"

text \<open>The comparisons \<^verbatim>\<open>x >= target\<close> and \<^verbatim>\<open>x <= target\<close> of an array element with the target.\<close>

fun float_ge :: "float64 \<Rightarrow> float64_or_inf \<Rightarrow> bool" where
  "float_ge x (Finite r) = (r \<le> val x)"
| "float_ge x Pos_inf = False"
| "float_ge x Neg_inf = True"

fun float_le :: "float64 \<Rightarrow> float64_or_inf \<Rightarrow> bool" where
  "float_le x (Finite r) = (val x \<le> r)"
| "float_le x Pos_inf = True"
| "float_le x Neg_inf = False"

subsection \<open>Data\<close>

datatype waiting_time = Offset nat | Np_inf

text \<open>The exceptions that the operations used by the function can raise.\<close>

datatype error = IndexError | ValueError

text \<open>
  The dictionary \<^verbatim>\<open>results\<close>: its keys are the tuples
  \<^verbatim>\<open>(increment, "increase")\<close> and \<^verbatim>\<open>(increment, "decrease")\<close>.
\<close>

type_synonym waiting_times_dict = "(float64 \<times> string) \<rightharpoonup> waiting_time list"

text \<open>
  The objects that the function reads and writes: the caller's array \<^verbatim>\<open>data\<close>,
  the dictionary \<^verbatim>\<open>results\<close> and the two lists that the inner loops append to.
\<close>

record env =
  data :: "float64 list"
  results :: waiting_times_dict
  waiting_times_increase :: "waiting_time list"
  waiting_times_decrease :: "waiting_time list"

subsection \<open>The numpy operations\<close>

text \<open>\<^verbatim>\<open>np.any(condition)\<close>: whether some element is true.\<close>

fun np_any :: "bool list \<Rightarrow> bool" where
  "np_any [] = False"
| "np_any (b # bs) = (b \<or> np_any bs)"

text \<open>
  \<^verbatim>\<open>np.argmax(a)\<close>: the index of the first occurrence of the greatest element;
  on an empty array it raises \<^verbatim>\<open>ValueError\<close>. On booleans \<open>False < True\<close>, so the
  result is the index of the first \<open>True\<close>, and 0 when there is none.
\<close>

fun argmax_scan :: "'a::linorder list \<Rightarrow> nat \<Rightarrow> nat \<Rightarrow> 'a \<Rightarrow> nat" where
  "argmax_scan [] k best_k best = best_k"
| "argmax_scan (x # xs) k best_k best =
     (if best < x then argmax_scan xs (Suc k) k x
      else argmax_scan xs (Suc k) best_k best)"

definition np_argmax :: "'a::linorder list \<Rightarrow> error + nat" where
  "np_argmax a = (case a of [] \<Rightarrow> Inl ValueError | x # xs \<Rightarrow> Inr (argmax_scan xs 1 0 x))"

subsection \<open>Loops\<close>

text \<open>
  \<^verbatim>\<open>for x in xs: body\<close> on a state, stopping at the first exception.
  \<^verbatim>\<open>range(n)\<close> is the list \<open>[0..<n]\<close>.
\<close>

fun for_each :: "'a list \<Rightarrow> ('a \<Rightarrow> 's \<Rightarrow> error + 's) \<Rightarrow> 's \<Rightarrow> error + 's" where
  "for_each [] body s = Inr s"
| "for_each (x # xs) body s =
     (case body x s of Inl e \<Rightarrow> Inl e | Inr s' \<Rightarrow> for_each xs body s')"

subsection \<open>The function\<close>

text \<open>
  Lines 141 to 146: the waiting time for an increase from index \<open>i\<close>. The target is
  a float64 sum, the slice \<^verbatim>\<open>data[i:]\<close> starts at \<open>i\<close> itself, and \<^verbatim>\<open>data[i]\<close>
  raises \<^verbatim>\<open>IndexError\<close> when \<open>i\<close> is not an index of the array.
\<close>

definition increase_waiting_time :: "float64 \<Rightarrow> nat \<Rightarrow> env \<Rightarrow> error + waiting_time" where
  "increase_waiting_time increment i s =
     (if i < length (data s) then
        (let target = float_add (data s ! i) increment;
             condition = map (\<lambda>x. float_ge x target) (drop i (data s))
         in if np_any condition
            then (case np_argmax condition of
                    Inl e \<Rightarrow> Inl e
                  | Inr waiting_time \<Rightarrow> Inr (Offset waiting_time))
            else Inr Np_inf)
      else Inl IndexError)"

text \<open>Lines 153 to 158: the same for a decrease.\<close>

definition decrease_waiting_time :: "float64 \<Rightarrow> nat \<Rightarrow> env \<Rightarrow> error + waiting_time" where
  "decrease_waiting_time increment i s =
     (if i < length (data s) then
        (let target = float_sub (data s ! i) increment;
             condition = map (\<lambda>x. float_le x target) (drop i (data s))
         in if np_any condition
            then (case np_argmax condition of
                    Inl e \<Rightarrow> Inl e
                  | Inr waiting_time \<Rightarrow> Inr (Offset waiting_time))
            else Inr Np_inf)
      else Inl IndexError)"

text \<open>The bodies of the two inner loops (lines 141 to 147 and 153 to 159).\<close>

definition increase_body :: "float64 \<Rightarrow> nat \<Rightarrow> env \<Rightarrow> error + env" where
  "increase_body increment i s =
     (case increase_waiting_time increment i s of
        Inl e \<Rightarrow> Inl e
      | Inr waiting_time \<Rightarrow>
          Inr (s\<lparr>waiting_times_increase := waiting_times_increase s @ [waiting_time]\<rparr>))"

definition decrease_body :: "float64 \<Rightarrow> nat \<Rightarrow> env \<Rightarrow> error + env" where
  "decrease_body increment i s =
     (case decrease_waiting_time increment i s of
        Inl e \<Rightarrow> Inl e
      | Inr waiting_time \<Rightarrow>
          Inr (s\<lparr>waiting_times_decrease := waiting_times_decrease s @ [waiting_time]\<rparr>))"

text \<open>
  The body of the loop over the increments (lines 138 to 160).
  \<^verbatim>\<open>np.array(waiting_times_increase)\<close> holds the values of the list in the same
  order, so the list itself is stored under the key.
\<close>

definition increment_body :: "nat \<Rightarrow> float64 \<Rightarrow> env \<Rightarrow> error + env" where
  "increment_body n increment s =
     (case for_each [0..<n] (increase_body increment) (s\<lparr>waiting_times_increase := []\<rparr>) of
        Inl e \<Rightarrow> Inl e
      | Inr s1 \<Rightarrow>
          (let s2 = s1\<lparr>results := (results s1)((increment, ''increase'') \<mapsto> waiting_times_increase s1)\<rparr>
           in case for_each [0..<n] (decrease_body increment) (s2\<lparr>waiting_times_decrease := []\<rparr>) of
                Inl e \<Rightarrow> Inl e
              | Inr s3 \<Rightarrow>
                  Inr (s3\<lparr>results := (results s3)((increment, ''decrease'') \<mapsto> waiting_times_decrease s3)\<rparr>)))"

text \<open>
  Lines 134 to 160, as a transformer of the objects: \<^verbatim>\<open>results = {}\<close>,
  \<^verbatim>\<open>n = len(data)\<close>, then the loop over \<^verbatim>\<open>increments\<close>.
\<close>

definition run_calculate :: "float64 list \<Rightarrow> env \<Rightarrow> error + env" where
  "run_calculate increments s =
     (let s0 = s\<lparr>results := Map.empty\<rparr>;
          n = length (data s0)
      in for_each increments (increment_body n) s0)"

text \<open>
  The call \<^verbatim>\<open>calculate_waiting_times_both_directions(data, increments)\<close>: the
  parameter \<^verbatim>\<open>data\<close> is bound to the caller's array, the body runs, and
  \<^verbatim>\<open>results\<close> is returned (line 162).
\<close>

definition calculate_waiting_times_both_directions ::
    "float64 list \<Rightarrow> float64 list \<Rightarrow> error + waiting_times_dict" where
  "calculate_waiting_times_both_directions prices increments =
     (case run_calculate increments
             \<lparr>data = prices, results = Map.empty,
              waiting_times_increase = [], waiting_times_decrease = []\<rparr> of
        Inl e \<Rightarrow> Inl e
      | Inr s \<Rightarrow> Inr (results s))"

text \<open>
  Reading one entry of the returned dictionary, as
  \<^verbatim>\<open>waiting_times_dict[(increment, direction)][i]\<close> does; \<open>None\<close> when the call
  raised, the key is absent or \<open>i\<close> is not an index of the array stored there.
\<close>

definition entry :: "error + waiting_times_dict \<Rightarrow> float64 \<Rightarrow> string \<Rightarrow> nat \<Rightarrow> waiting_time option" where
  "entry r increment direction i =
     (case r of
        Inl e \<Rightarrow> None
      | Inr m \<Rightarrow>
          (case m (increment, direction) of
             None \<Rightarrow> None
           | Some ws \<Rightarrow> if i < length ws then Some (ws ! i) else None))"

subsection \<open>The specification's naive forward scan\<close>

text \<open>
  The specification's directions, and the dictionary key of each in the source.
\<close>

datatype direction = Rising | Falling

fun direction_key :: "direction \<Rightarrow> string" where
  "direction_key Rising = ''increase''"
| "direction_key Falling = ''decrease''"

text \<open>
  The crossing condition of the specification at offset \<open>j\<close> from the start index
  \<open>i\<close>, in the real numbers: the value at \<open>i + j\<close> is at least the start value plus
  the threshold (Rising), or at most the start value minus the threshold (Falling).
\<close>

fun crosses :: "direction \<Rightarrow> float64 list \<Rightarrow> float64 \<Rightarrow> nat \<Rightarrow> nat \<Rightarrow> bool" where
  "crosses Rising series threshold i j =
     (val (series ! (i + j)) \<ge> val (series ! i) + val threshold)"
| "crosses Falling series threshold i j =
     (val (series ! (i + j)) \<le> val (series ! i) - val threshold)"


fun crosses_float64 :: "direction \<Rightarrow> float64 list \<Rightarrow> float64 \<Rightarrow> nat \<Rightarrow> nat \<Rightarrow> bool" where
  "crosses_float64 Rising series threshold i j =
     float_ge (series ! (i + j)) (float_add (series ! i) threshold)"
| "crosses_float64 Falling series threshold i j =
     float_le (series ! (i + j)) (float_sub (series ! i) threshold)"

text \<open>
  The naive forward scan of the specification: the smallest offset \<open>j\<close> with
  \<open>1 \<le> j\<close> and \<open>j < m\<close> at which the crossing condition holds, and the unreachable
  sentinel when there is none; from the start index \<open>i\<close> of a series of length \<open>n\<close>
  the offsets are those with \<open>1 \<le> j \<le> n - 1 - i\<close>.
\<close>

definition first_crossing :: "(nat \<Rightarrow> bool) \<Rightarrow> nat \<Rightarrow> waiting_time" where
  "first_crossing crossing m =
     (case List.find crossing [1..<m] of None \<Rightarrow> Np_inf | Some j \<Rightarrow> Offset j)"

definition naive_forward_scan :: "direction \<Rightarrow> float64 list \<Rightarrow> float64 \<Rightarrow> nat \<Rightarrow> waiting_time" where
  "naive_forward_scan d series threshold i =
     first_crossing (crosses d series threshold i) (length series - i)"

definition naive_forward_scan_float64 ::
    "direction \<Rightarrow> float64 list \<Rightarrow> float64 \<Rightarrow> nat \<Rightarrow> waiting_time" where
  "naive_forward_scan_float64 d series threshold i =
     first_crossing (crosses_float64 d series threshold i) (length series - i)"

subsection \<open>Notation for the statements\<close>

text \<open>
  The objects at the start of a call on the array \<open>xs\<close>, and the lists of waiting
  times that the two inner loops build for an increment.
\<close>

abbreviation call_env :: "float64 list \<Rightarrow> env" where
  "call_env xs \<equiv> \<lparr>data = xs, results = Map.empty,
                  waiting_times_increase = [], waiting_times_decrease = []\<rparr>"

abbreviation increase_list :: "float64 \<Rightarrow> env \<Rightarrow> waiting_time list" where
  "increase_list t s \<equiv> map (\<lambda>i. projr (increase_waiting_time t i s)) [0..<length (data s)]"

abbreviation decrease_list :: "float64 \<Rightarrow> env \<Rightarrow> waiting_time list" where
  "decrease_list t s \<equiv> map (\<lambda>i. projr (decrease_waiting_time t i s)) [0..<length (data s)]"

text \<open>The series of the first scenario of the specification: 100, 102, 101, 105, 99.\<close>

abbreviation scenario :: "float64 list" where
  "scenario \<equiv> [float64_of 100, float64_of 102, float64_of 101, float64_of 105, float64_of 99]"

section \<open>Auxiliary facts\<close>

subsection \<open>Rounding to float64\<close>

lemma round_half_even_of_int [simp]: "round_half_even (of_int n) = n"
  by (simp add: round_half_even_def)

lemma round_half_even_bounds:
  "\<lfloor>r\<rfloor> \<le> round_half_even r" "round_half_even r \<le> \<lfloor>r\<rfloor> + 1"
  by (simp_all add: round_half_even_def Let_def)

lemma round_half_even_mono:
  assumes "r \<le> s"
  shows "round_half_even r \<le> round_half_even s"
proof (cases "\<lfloor>r\<rfloor> = \<lfloor>s\<rfloor>")
  case True
  then have "r - of_int \<lfloor>r\<rfloor> \<le> s - of_int \<lfloor>s\<rfloor>" using assms by simp
  then show ?thesis using True
    by (auto simp: round_half_even_def Let_def)
next
  case False
  with assms have "\<lfloor>r\<rfloor> < \<lfloor>s\<rfloor>" using floor_mono[OF assms] by simp
  then have "\<lfloor>r\<rfloor> + 1 \<le> \<lfloor>s\<rfloor>" by simp
  with round_half_even_bounds(2)[of r] round_half_even_bounds(1)[of s]
  show ?thesis by linarith
qed

lemma round_half_even_uminus: "round_half_even (- r) = - round_half_even r"
proof (cases "r = of_int \<lfloor>r\<rfloor>")
  case True
  then obtain n where n: "r = of_int n" by blast
  then have "- r = of_int (- n)" by simp
  then have "round_half_even (- r) = - n" by (simp only: round_half_even_of_int)
  with n show ?thesis by simp
next
  case False
  define n where "n = \<lfloor>r\<rfloor>"
  define d where "d = r - of_int n"
  have d: "0 < d" "d < 1" using False unfolding d_def n_def by linarith+
  have f: "\<lfloor>- r\<rfloor> = - n - 1"
    using d unfolding d_def by (intro floor_unique) simp_all
  have d': "- r - of_int (- n - 1) = 1 - d" by (simp add: d_def)
  have e: "even (- n - 1) \<longleftrightarrow> odd n" by simp
  show ?thesis
    unfolding round_half_even_def Let_def f n_def[symmetric] d' d_def[symmetric] e
    using d by auto
qed

lemma two_powr_int: "0 \<le> k \<Longrightarrow> (2::real) powr of_int k = of_int (2 ^ nat k)"
  by (simp add: powr_real_of_int)

lemma floor_log2_bounds:
  assumes "0 < x"
  shows "(2::real) powr of_int \<lfloor>log 2 x\<rfloor> \<le> x" and "x < (2::real) powr of_int (\<lfloor>log 2 x\<rfloor> + 1)"
proof -
  have "of_int \<lfloor>log 2 x\<rfloor> \<le> log 2 x" by simp
  then have "(2::real) powr of_int \<lfloor>log 2 x\<rfloor> \<le> (2::real) powr log 2 x" by simp
  then show "(2::real) powr of_int \<lfloor>log 2 x\<rfloor> \<le> x" using assms by simp
  have "log 2 x < of_int (\<lfloor>log 2 x\<rfloor> + 1)" by linarith
  then have "(2::real) powr log 2 x < (2::real) powr of_int (\<lfloor>log 2 x\<rfloor> + 1)" by simp
  then show "x < (2::real) powr of_int (\<lfloor>log 2 x\<rfloor> + 1)" using assms by simp
qed

lemma floor_log2_eqI:
  assumes "(2::real) powr of_int e \<le> x" and "x < (2::real) powr of_int (e + 1)"
  shows "\<lfloor>log 2 x\<rfloor> = e"
proof -
  have x: "0 < x" using assms(1) powr_gt_zero[of 2 "of_int e"] by linarith
  have "of_int e \<le> log 2 x" using assms(1) x by (simp add: le_log_iff)
  moreover have "log 2 x < of_int e + 1" using assms(2) x by (simp add: log_less_iff)
  ultimately show ?thesis by (intro floor_unique) simp_all
qed

lemma ulp_exponent_uminus [simp]: "ulp_exponent (- x) = ulp_exponent x"
  by (simp add: ulp_exponent_def)

lemma round64_uminus: "round64 (- x) = - round64 x"
  by (simp add: round64_def round_half_even_uminus)

lemma round64_nonneg:
  assumes "0 \<le> x"
  shows "0 \<le> round64 x"
proof (cases "x = 0")
  case True
  then show ?thesis by (simp add: round64_def)
next
  case False
  let ?u = "(2::real) powr of_int (ulp_exponent x)"
  have "0 \<le> x / ?u" using assms by simp
  from round_half_even_mono[OF this] have "0 \<le> round_half_even (x / ?u)"
    using round_half_even_of_int[of 0] by simp
  then show ?thesis using False by (simp add: round64_def)
qed

lemma round64_grid_le:
  assumes "x \<noteq> 0" and "x \<le> of_int m * (2::real) powr of_int (ulp_exponent x)"
  shows "round64 x \<le> of_int m * (2::real) powr of_int (ulp_exponent x)"
proof -
  let ?u = "(2::real) powr of_int (ulp_exponent x)"
  have u: "0 < ?u" by simp
  from assms(2) have "x / ?u \<le> of_int m" using u by (simp add: field_simps)
  from round_half_even_mono[OF this] have "round_half_even (x / ?u) \<le> m" by simp
  then have "of_int (round_half_even (x / ?u)) * ?u \<le> of_int m * ?u"
    using u by (simp add: mult_right_mono)
  then show ?thesis using assms(1) by (simp add: round64_def)
qed

lemma round64_grid_ge:
  assumes "x \<noteq> 0" and "of_int m * (2::real) powr of_int (ulp_exponent x) \<le> x"
  shows "of_int m * (2::real) powr of_int (ulp_exponent x) \<le> round64 x"
proof -
  let ?u = "(2::real) powr of_int (ulp_exponent x)"
  have u: "0 < ?u" by simp
  from assms(2) have "of_int m \<le> x / ?u" using u by (simp add: field_simps)
  from round_half_even_mono[OF this] have "m \<le> round_half_even (x / ?u)" by simp
  then have "of_int m * ?u \<le> of_int (round_half_even (x / ?u)) * ?u"
    using u by (simp add: mult_right_mono)
  then show ?thesis using assms(1) by (simp add: round64_def)
qed

lemma round64_mono_pos:
  assumes "0 < x" and "x \<le> y"
  shows "round64 x \<le> round64 y"
proof -
  have y: "0 < y" using assms by simp
  define ex where "ex = \<lfloor>log 2 x\<rfloor>"
  define ey where "ey = \<lfloor>log 2 y\<rfloor>"
  have exy: "ex \<le> ey"
    unfolding ex_def ey_def using assms by (intro floor_mono) simp
  have qx: "ulp_exponent x = max (ex - 52) (- 1074)"
    using assms(1) by (simp add: ulp_exponent_def ex_def)
  have qy: "ulp_exponent y = max (ey - 52) (- 1074)"
    using y by (simp add: ulp_exponent_def ey_def)
  show ?thesis
  proof (cases "ulp_exponent x = ulp_exponent y")
    case True
    let ?u = "(2::real) powr of_int (ulp_exponent y)"
    have "x / ?u \<le> y / ?u" using assms(2) by (simp add: divide_right_mono)
    from round_half_even_mono[OF this]
    have "of_int (round_half_even (x / ?u)) * ?u \<le> of_int (round_half_even (y / ?u)) * ?u"
      by (simp add: mult_right_mono)
    then show ?thesis using assms(1) y True by (simp add: round64_def)
  next
    case False
    with qx qy exy have lt: "ulp_exponent x < ulp_exponent y" by linarith
    with qx qy have qy': "ulp_exponent y = ey - 52" and ex_lt: "ex < ey" by linarith+
    define B where "B = (2::real) powr of_int ey"
    have xB: "x \<le> B"
    proof -
      have "x < (2::real) powr of_int (ex + 1)"
        unfolding ex_def by (rule floor_log2_bounds(2)[OF assms(1)])
      also have "\<dots> \<le> (2::real) powr of_int ey" using ex_lt by simp
      finally show ?thesis by (simp add: B_def)
    qed
    have By: "B \<le> y"
      unfolding B_def ey_def by (rule floor_log2_bounds(1)[OF y])
    have By_grid: "B = of_int (2 ^ 52) * (2::real) powr of_int (ulp_exponent y)"
    proof -
      have "(2::real) powr of_int ey = (2::real) powr (of_int 52 + of_int (ey - 52))" by simp
      also have "\<dots> = (2::real) powr of_int 52 * (2::real) powr of_int (ey - 52)" by (rule powr_add)
      also have "(2::real) powr of_int (52::int) = of_int (2 ^ 52)" by (simp add: two_powr_int)
      finally show ?thesis by (simp add: B_def qy')
    qed
    have Bx_grid: "B = of_int (2 ^ nat (ey - ulp_exponent x)) * (2::real) powr of_int (ulp_exponent x)"
    proof -
      have nn: "0 \<le> ey - ulp_exponent x" using lt qy' by simp
      have "(2::real) powr of_int ey = (2::real) powr (of_int (ey - ulp_exponent x) + of_int (ulp_exponent x))" by simp
      also have "\<dots> = (2::real) powr of_int (ey - ulp_exponent x) * (2::real) powr of_int (ulp_exponent x)"
        by (rule powr_add)
      also have "(2::real) powr of_int (ey - ulp_exponent x) = of_int (2 ^ nat (ey - ulp_exponent x))"
        by (rule two_powr_int[OF nn])
      finally show ?thesis by (simp add: B_def)
    qed
    have "round64 x \<le> B"
      using round64_grid_le[of x "2 ^ nat (ey - ulp_exponent x)"] assms(1) xB Bx_grid by simp
    moreover have "B \<le> round64 y"
      using round64_grid_ge[of y "2 ^ 52"] y By By_grid by simp
    ultimately show ?thesis by simp
  qed
qed

lemma round64_mono:
  assumes "x \<le> y"
  shows "round64 x \<le> round64 y"
proof -
  consider "0 < x" | "x \<le> 0" "0 \<le> y" | "y < 0" by linarith
  then show ?thesis
  proof cases
    case 1
    then show ?thesis using assms by (rule round64_mono_pos)
  next
    case 2
    have "round64 x \<le> 0"
      using round64_nonneg[of "- x"] 2(1) by (simp add: round64_uminus)
    moreover have "0 \<le> round64 y" using 2(2) by (rule round64_nonneg)
    ultimately show ?thesis by simp
  next
    case 3
    then have "0 < - y" "- y \<le> - x" using assms by simp_all
    from round64_mono_pos[OF this] show ?thesis by (simp add: round64_uminus)
  qed
qed

lemma round64_exact:
  assumes "x = of_int m * (2::real) powr of_int (ulp_exponent x)"
  shows "round64 x = x"
proof (cases "x = 0")
  case True
  then show ?thesis by (simp add: round64_def)
next
  case False
  let ?u = "(2::real) powr of_int (ulp_exponent x)"
  have "x / ?u = of_int m" using assms by (simp add: field_simps)
  then have "round_half_even (x / ?u) = m" by (simp only: round_half_even_of_int)
  then show ?thesis using False assms by (simp add: round64_def)
qed

lemma ulp_exponent_eqI:
  assumes "2 ^ k \<le> \<bar>x\<bar>" and "\<bar>x\<bar> < 2 ^ Suc k"
  shows "ulp_exponent x = int k - 52"
proof -
  have "(2::real) powr of_int (int k) \<le> \<bar>x\<bar>" using assms(1) by (simp add: powr_realpow)
  moreover have "\<bar>x\<bar> < (2::real) powr of_int (int k + 1)"
  proof -
    have "(2::real) powr of_int (int k + 1) = 2 powr real (Suc k)" by (simp add: add.commute)
    also have "\<dots> = 2 ^ Suc k" by (rule powr_realpow) simp
    finally show ?thesis using assms(2) by simp
  qed
  ultimately have "\<lfloor>log 2 \<bar>x\<bar>\<rfloor> = int k" by (rule floor_log2_eqI)
  then show ?thesis by (simp add: ulp_exponent_def)
qed

lemma round64_of_int:
  assumes "\<bar>n\<bar> < 2 ^ 53"
  shows "round64 (of_int n) = of_int n"
proof (cases "n = 0")
  case True
  then show ?thesis by (simp add: round64_def)
next
  case False
  define x :: real where "x = of_int n"
  have x1: "1 \<le> \<bar>x\<bar>" using False by (simp add: x_def)
  have x2: "\<bar>x\<bar> < 2 ^ 53"
  proof -
    have "real_of_int \<bar>n\<bar> < real_of_int (2 ^ 53)" using assms by (simp only: of_int_less_iff)
    then show ?thesis by (simp add: x_def)
  qed
  define e where "e = \<lfloor>log 2 \<bar>x\<bar>\<rfloor>"
  have xpos: "0 < \<bar>x\<bar>" using x1 by simp
  have e0: "0 \<le> e"
  proof -
    have "0 \<le> log 2 \<bar>x\<bar>" using x1 by simp
    then show ?thesis by (simp add: e_def)
  qed
  have e52: "e \<le> 52"
  proof (rule ccontr)
    assume "\<not> e \<le> 52"
    then have "(53::int) \<le> e" by simp
    then have "(2::real) powr of_int 53 \<le> 2 powr of_int e"
      by (intro powr_mono) simp_all
    also have "\<dots> \<le> \<bar>x\<bar>"
      unfolding e_def by (rule floor_log2_bounds(1)[OF xpos])
    finally have "(2::real) powr of_int 53 < 2 ^ 53" using x2 by simp
    then show False by simp
  qed
  have q: "ulp_exponent x = e - 52" using e0 by (simp add: ulp_exponent_def e_def)
  have nn: "0 \<le> 52 - e" using e52 by simp
  have "(2::real) powr of_int (52 - e) * 2 powr of_int (e - 52) = 2 powr (of_int (52 - e) + of_int (e - 52))"
    by (simp only: powr_add)
  also have "\<dots> = 1" by simp
  finally have one: "(2::real) powr of_int (52 - e) * 2 powr of_int (e - 52) = 1" .
  have "x = of_int (n * 2 ^ nat (52 - e)) * (2::real) powr of_int (ulp_exponent x)"
  proof -
    have "of_int (n * 2 ^ nat (52 - e)) * (2::real) powr of_int (e - 52)
        = x * (of_int (2 ^ nat (52 - e)) * 2 powr of_int (e - 52))"
      by (simp add: x_def)
    also have "of_int (2 ^ nat (52 - e)) = (2::real) powr of_int (52 - e)"
      by (rule two_powr_int[OF nn, symmetric])
    finally show ?thesis using one q by simp
  qed
  from round64_exact[OF this] show ?thesis by (simp add: x_def)
qed

lemma round64_Ints:
  assumes "x \<in> \<int>" and "\<bar>x\<bar> < 2 ^ 53"
  shows "round64 x = x"
proof -
  from assms(1) obtain n where n: "x = of_int n" by (auto elim: Ints_cases)
  have "real_of_int \<bar>n\<bar> < real_of_int (2 ^ 53)" using assms(2) n by simp
  then have "\<bar>n\<bar> < 2 ^ 53" by (simp only: of_int_less_iff)
  from round64_of_int[OF this] n show ?thesis by simp
qed

lemma max_float64_ge: "2 ^ 53 \<le> max_float64"
  by (simp add: max_float64_def)

lemma ulp_1e16:
  "ulp_exponent 10000000000000000 = 1" "ulp_exponent 10000000000000001 = 1"
  using ulp_exponent_eqI[of 53 10000000000000000] ulp_exponent_eqI[of 53 10000000000000001]
  by simp_all

lemma round64_1e16: "round64 10000000000000000 = 10000000000000000"
proof -
  have "(10000000000000000::real)
      = of_int 5000000000000000 * (2::real) powr of_int (ulp_exponent 10000000000000000)"
    by (simp add: ulp_1e16)
  then show ?thesis by (rule round64_exact)
qed

lemma round64_1e16_plus_1: "round64 10000000000000001 = 10000000000000000"
  by (simp add: round64_def ulp_1e16 round_half_even_def)

subsection \<open>float64 values, sums and comparisons\<close>

lemma val_round64 [simp]: "round64 (val x) = val x"
  using val[of x] by simp

lemma val_le_max: "\<bar>val x\<bar> \<le> max_float64"
  using val[of x] by simp

lemma val_float64_of: "round64 x = x \<Longrightarrow> \<bar>x\<bar> \<le> max_float64 \<Longrightarrow> val (float64_of x) = x"
  by (simp add: float64_of_inverse)

lemma Ints_is_float64:
  assumes "x \<in> \<int>" and "\<bar>x\<bar> < 2 ^ 53"
  shows "round64 x = x" and "\<bar>x\<bar> \<le> max_float64"
  using assms round64_Ints[OF assms] max_float64_ge by simp_all

lemma val_float64_of_Ints: "x \<in> \<int> \<Longrightarrow> \<bar>x\<bar> < 2 ^ 53 \<Longrightarrow> val (float64_of x) = x"
  by (intro val_float64_of Ints_is_float64)

lemma float64_of_eq_iff_Ints:
  assumes "x \<in> \<int>" "\<bar>x\<bar> < 2 ^ 53" "y \<in> \<int>" "\<bar>y\<bar> < 2 ^ 53"
  shows "float64_of x = float64_of y \<longleftrightarrow> x = y"
  using val_float64_of_Ints[OF assms(1,2)] val_float64_of_Ints[OF assms(3,4)] by metis

lemma float_ge_add: "float_ge x (float_add a t) \<longleftrightarrow> round64 (val a + val t) \<le> val x"
  using val_le_max[of x] by (auto simp: float_add_def overflow_def)

lemma float_le_sub: "float_le x (float_sub a t) \<longleftrightarrow> val x \<le> round64 (val a - val t)"
  using val_le_max[of x] by (auto simp: float_sub_def overflow_def)

lemma crosses_float64_iff:
  "crosses_float64 Rising xs t i j \<longleftrightarrow> round64 (val (xs ! i) + val t) \<le> val (xs ! (i + j))"
  "crosses_float64 Falling xs t i j \<longleftrightarrow> val (xs ! (i + j)) \<le> round64 (val (xs ! i) - val t)"
  by (simp_all add: float_ge_add float_le_sub)

lemma crosses_float64_0:
  assumes "val t \<le> 0"
  shows "crosses_float64 d xs t i 0"
proof (cases d)
  case Rising
  have "round64 (val (xs ! i) + val t) \<le> round64 (val (xs ! i))"
    using assms by (intro round64_mono) simp
  then show ?thesis using Rising by (simp add: float_ge_add)
next
  case Falling
  have "round64 (val (xs ! i)) \<le> round64 (val (xs ! i) - val t)"
    using assms by (intro round64_mono) simp
  then show ?thesis using Falling by (simp add: float_le_sub)
qed

lemma crosses_float64_Rising_mono:
  assumes "val t1 \<le> val t2" and "crosses_float64 Rising xs t2 i k"
  shows "crosses_float64 Rising xs t1 i k"
proof -
  have "round64 (val (xs ! i) + val t1) \<le> round64 (val (xs ! i) + val t2)"
    using assms(1) by (intro round64_mono) simp
  with assms(2) show ?thesis by (simp add: float_ge_add)
qed

subsection \<open>The numpy operations on a condition array\<close>

lemma np_any_iff: "np_any c \<longleftrightarrow> True \<in> set c"
  by (induction c) auto

lemma argmax_scan_True: "argmax_scan bs k best_k True = best_k"
  by (induction bs arbitrary: k) auto

lemma argmax_scan_False:
  "argmax_scan bs k best_k False =
     (if True \<in> set bs then k + length (takeWhile Not bs) else best_k)"
  by (induction bs arbitrary: k) (auto simp: argmax_scan_True)

lemma np_argmax_bool:
  "True \<in> set c \<Longrightarrow> np_argmax c = Inr (length (takeWhile Not c))"
  by (cases c) (auto simp: np_argmax_def argmax_scan_True argmax_scan_False)

lemma first_True:
  "True \<in> set c \<Longrightarrow>
     length (takeWhile Not c) < length c \<and> c ! length (takeWhile Not c) \<and>
     (\<forall>j < length (takeWhile Not c). \<not> c ! j)"
proof (induction c)
  case Nil
  then show ?case by simp
next
  case (Cons b bs)
  show ?case
  proof (cases b)
    case True
    then show ?thesis by simp
  next
    case False
    with Cons.prems have "True \<in> set bs" by auto
    with Cons.IH False show ?thesis by (auto simp: nth_Cons split: nat.splits)
  qed
qed

lemma scan_condition:
  fixes P :: "'a \<Rightarrow> bool" and xs :: "'a list"
  defines "c \<equiv> map P xs"
  shows "(np_any c \<and> (\<exists>k. np_argmax c = Inr k \<and> k < length xs \<and> P (xs ! k) \<and> (\<forall>j<k. \<not> P (xs ! j))))
       \<or> (\<not> np_any c \<and> (\<forall>k<length xs. \<not> P (xs ! k)))"
proof (cases "True \<in> set c")
  case True
  let ?k = "length (takeWhile Not c)"
  from first_True[OF True] have k: "?k < length c" "c ! ?k" "\<forall>j < ?k. \<not> c ! j" by auto
  have "?k < length xs" using k(1) by (simp add: c_def)
  moreover have "P (xs ! ?k)" using k(1,2) by (simp add: c_def)
  moreover have "\<forall>j < ?k. \<not> P (xs ! j)"
  proof (intro allI impI)
    fix j assume "j < ?k"
    with k have "\<not> c ! j" "j < length xs" by (auto simp: c_def)
    then show "\<not> P (xs ! j)" by (simp add: c_def)
  qed
  ultimately show ?thesis using True np_argmax_bool[OF True] by (auto simp: np_any_iff)
next
  case False
  then have "\<forall>k<length xs. \<not> P (xs ! k)" by (auto simp: c_def dest: nth_mem)
  with False show ?thesis by (simp add: np_any_iff)
qed

subsection \<open>One waiting time\<close>

lemma first_passage_char:
  fixes P :: "'a \<Rightarrow> bool" and ys :: "'a list" and i :: nat
  defines "c \<equiv> map P (drop i ys)"
  shows "\<exists>w. (if np_any c
              then (case np_argmax c of Inl e \<Rightarrow> Inl e | Inr k \<Rightarrow> Inr (Offset k))
              else Inr Np_inf) = Inr w \<and>
           (\<forall>k. w = Offset k \<longleftrightarrow>
                  i + k < length ys \<and> P (ys ! (i + k)) \<and> (\<forall>j<k. \<not> P (ys ! (i + j)))) \<and>
           (w = Np_inf \<longleftrightarrow> (\<forall>k. i + k < length ys \<longrightarrow> \<not> P (ys ! (i + k))))"
proof -
  define xs where "xs = drop i ys"
  have c: "c = map P xs" by (simp add: c_def xs_def)
  have nth: "xs ! k = ys ! (i + k)" if "i + k < length ys" for k
    using that by (simp add: xs_def)
  have len: "k < length xs \<longleftrightarrow> i + k < length ys" for k
    by (auto simp: xs_def)
  from scan_condition[of P xs] show ?thesis
  proof (elim disjE conjE exE)
    fix k
    assume a: "np_any (map P xs)" "np_argmax (map P xs) = Inr k" "k < length xs"
      "P (xs ! k)" "\<forall>j<k. \<not> P (xs ! j)"
    have k: "i + k < length ys" using a(3) len by simp
    have hit: "P (ys ! (i + k))" using a(4) nth[OF k] by simp
    have before: "\<not> P (ys ! (i + j))" if "j < k" for j
    proof -
      from that k have "i + j < length ys" by simp
      from nth[OF this] a(5) that show ?thesis by metis
    qed
    have uniq: "k' = k" if "P (ys ! (i + k'))" "\<forall>j<k'. \<not> P (ys ! (i + j))" for k'
      using that hit before by (meson linorder_neqE_nat)
    show ?thesis
    proof (intro exI[of _ "Offset k"] conjI allI)
      show "(if np_any c
              then (case np_argmax c of Inl e \<Rightarrow> Inl e | Inr k \<Rightarrow> Inr (Offset k))
              else Inr Np_inf) = Inr (Offset k)"
        using a(1,2) by (simp add: c)
      show "Offset k = Offset k' \<longleftrightarrow>
              i + k' < length ys \<and> P (ys ! (i + k')) \<and> (\<forall>j<k'. \<not> P (ys ! (i + j)))" for k'
        using uniq[of k'] k hit before by blast
      show "Offset k = Np_inf \<longleftrightarrow> (\<forall>k. i + k < length ys \<longrightarrow> \<not> P (ys ! (i + k)))"
        using k hit by blast
    qed
  next
    assume a: "\<not> np_any (map P xs)" "\<forall>k<length xs. \<not> P (xs ! k)"
    have none: "\<not> P (ys ! (i + k))" if "i + k < length ys" for k
      using nth[OF that] a(2) len that by force
    show ?thesis
    proof (intro exI[of _ Np_inf] conjI allI)
      show "(if np_any c
              then (case np_argmax c of Inl e \<Rightarrow> Inl e | Inr k \<Rightarrow> Inr (Offset k))
              else Inr Np_inf) = Inr Np_inf"
        using a(1) by (simp add: c)
      show "Np_inf = Offset k' \<longleftrightarrow>
              i + k' < length ys \<and> P (ys ! (i + k')) \<and> (\<forall>j<k'. \<not> P (ys ! (i + j)))" for k'
        using none[of k'] by auto
      show "Np_inf = Np_inf \<longleftrightarrow> (\<forall>k. i + k < length ys \<longrightarrow> \<not> P (ys ! (i + k)))"
        using none by blast
    qed
  qed
qed

lemma increase_waiting_time_char:
  assumes "i < length (data s)"
  shows "\<exists>w. increase_waiting_time t i s = Inr w \<and>
           (\<forall>k. w = Offset k \<longleftrightarrow>
                  i + k < length (data s) \<and> crosses_float64 Rising (data s) t i k \<and>
                  (\<forall>j<k. \<not> crosses_float64 Rising (data s) t i j)) \<and>
           (w = Np_inf \<longleftrightarrow>
              (\<forall>k. i + k < length (data s) \<longrightarrow> \<not> crosses_float64 Rising (data s) t i k))"
  using assms first_passage_char[of "\<lambda>x. float_ge x (float_add (data s ! i) t)" i "data s"]
  by (simp add: increase_waiting_time_def Let_def)

lemma decrease_waiting_time_char:
  assumes "i < length (data s)"
  shows "\<exists>w. decrease_waiting_time t i s = Inr w \<and>
           (\<forall>k. w = Offset k \<longleftrightarrow>
                  i + k < length (data s) \<and> crosses_float64 Falling (data s) t i k \<and>
                  (\<forall>j<k. \<not> crosses_float64 Falling (data s) t i j)) \<and>
           (w = Np_inf \<longleftrightarrow>
              (\<forall>k. i + k < length (data s) \<longrightarrow> \<not> crosses_float64 Falling (data s) t i k))"
  using assms first_passage_char[of "\<lambda>x. float_le x (float_sub (data s ! i) t)" i "data s"]
  by (simp add: decrease_waiting_time_def Let_def)

lemma increase_waiting_time_cong:
  "data s' = data s \<Longrightarrow> increase_waiting_time t i s' = increase_waiting_time t i s"
  by (simp add: increase_waiting_time_def Let_def)

lemma decrease_waiting_time_cong:
  "data s' = data s \<Longrightarrow> decrease_waiting_time t i s' = decrease_waiting_time t i s"
  by (simp add: decrease_waiting_time_def Let_def)

lemma increase_waiting_time_update [simp]:
  "increase_waiting_time t i (results_update f s) = increase_waiting_time t i s"
  "increase_waiting_time t i (waiting_times_increase_update g s) = increase_waiting_time t i s"
  "increase_waiting_time t i (waiting_times_decrease_update g s) = increase_waiting_time t i s"
  by (simp_all add: increase_waiting_time_def)

lemma decrease_waiting_time_update [simp]:
  "decrease_waiting_time t i (results_update f s) = decrease_waiting_time t i s"
  "decrease_waiting_time t i (waiting_times_increase_update g s) = decrease_waiting_time t i s"
  "decrease_waiting_time t i (waiting_times_decrease_update g s) = decrease_waiting_time t i s"
  by (simp_all add: decrease_waiting_time_def)

lemma for_each_increase:
  assumes "\<forall>i\<in>set ixs. i < length (data s)"
  shows "for_each ixs (increase_body t) s =
           Inr (s\<lparr>waiting_times_increase :=
                   waiting_times_increase s @ map (\<lambda>i. projr (increase_waiting_time t i s)) ixs\<rparr>)"
  using assms
proof (induction ixs arbitrary: s)
  case Nil
  then show ?case by simp
next
  case (Cons i ixs)
  from Cons.prems have "i < length (data s)" by simp
  from increase_waiting_time_char[OF this, of t]
  obtain w where w: "increase_waiting_time t i s = Inr w" by blast
  let ?s' = "s\<lparr>waiting_times_increase := waiting_times_increase s @ [w]\<rparr>"
  have step: "increase_body t i s = Inr ?s'" by (simp add: increase_body_def w)
  have d: "data ?s' = data s" by simp
  have "\<forall>i\<in>set ixs. i < length (data ?s')" using Cons.prems by simp
  from Cons.IH[OF this] show ?case
    by (simp add: step w)
qed

lemma for_each_decrease:
  assumes "\<forall>i\<in>set ixs. i < length (data s)"
  shows "for_each ixs (decrease_body t) s =
           Inr (s\<lparr>waiting_times_decrease :=
                   waiting_times_decrease s @ map (\<lambda>i. projr (decrease_waiting_time t i s)) ixs\<rparr>)"
  using assms
proof (induction ixs arbitrary: s)
  case Nil
  then show ?case by simp
next
  case (Cons i ixs)
  from Cons.prems have "i < length (data s)" by simp
  from decrease_waiting_time_char[OF this, of t]
  obtain w where w: "decrease_waiting_time t i s = Inr w" by blast
  let ?s' = "s\<lparr>waiting_times_decrease := waiting_times_decrease s @ [w]\<rparr>"
  have step: "decrease_body t i s = Inr ?s'" by (simp add: decrease_body_def w)
  have d: "data ?s' = data s" by simp
  have "\<forall>i\<in>set ixs. i < length (data ?s')" using Cons.prems by simp
  from Cons.IH[OF this] show ?case
    by (simp add: step w)
qed

lemma increment_body_eq:
  assumes "n = length (data s)"
  shows "increment_body n t s =
           Inr (s\<lparr>waiting_times_increase := map (\<lambda>i. projr (increase_waiting_time t i s)) [0..<n],
                  waiting_times_decrease := map (\<lambda>i. projr (decrease_waiting_time t i s)) [0..<n],
                  results := (results s)
                    ((t, ''increase'') \<mapsto> map (\<lambda>i. projr (increase_waiting_time t i s)) [0..<n],
                     (t, ''decrease'') \<mapsto> map (\<lambda>i. projr (decrease_waiting_time t i s)) [0..<n])\<rparr>)"
proof -
  let ?s0 = "s\<lparr>waiting_times_increase := []\<rparr>"
  have r: "\<forall>i\<in>set [0..<n]. i < length (data ?s0)" using assms by simp
  have d0: "data ?s0 = data s" by simp
  define s1 where "s1 = ?s0\<lparr>waiting_times_increase :=
       waiting_times_increase ?s0 @ map (\<lambda>i. projr (increase_waiting_time t i ?s0)) [0..<n]\<rparr>"
  have e1: "for_each [0..<n] (increase_body t) ?s0 = Inr s1"
    unfolding s1_def by (rule for_each_increase[OF r])
  define s2 where "s2 = s1\<lparr>results := (results s1)((t, ''increase'') \<mapsto> waiting_times_increase s1)\<rparr>"
  let ?s2' = "s2\<lparr>waiting_times_decrease := []\<rparr>"
  have d2: "data ?s2' = data s" by (simp add: s2_def s1_def)
  have r2: "\<forall>i\<in>set [0..<n]. i < length (data ?s2')" using assms d2 by simp
  define s3 where "s3 = ?s2'\<lparr>waiting_times_decrease :=
       waiting_times_decrease ?s2' @ map (\<lambda>i. projr (decrease_waiting_time t i ?s2')) [0..<n]\<rparr>"
  have e3: "for_each [0..<n] (decrease_body t) ?s2' = Inr s3"
    unfolding s3_def by (rule for_each_decrease[OF r2])
  have "increment_body n t s =
          Inr (s3\<lparr>results := (results s3)((t, ''decrease'') \<mapsto> waiting_times_decrease s3)\<rparr>)"
    by (simp add: increment_body_def e1 s2_def[symmetric] e3)
  then show ?thesis
    by (simp add: s3_def s2_def s1_def)
qed

subsection \<open>The loop over the increments and the returned dictionary\<close>

lemma for_each_increment:
  assumes "n = length (data s)"
  shows "\<exists>s'. for_each incs (increment_body n) s = Inr s' \<and> data s' = data s \<and>
           results s' =
             (\<lambda>(t, d). if t \<in> set incs \<and> d = ''increase'' then Some (increase_list t s)
                       else if t \<in> set incs \<and> d = ''decrease'' then Some (decrease_list t s)
                       else results s (t, d))"
  using assms
proof (induction incs arbitrary: s)
  case Nil
  then show ?case by (simp add: fun_eq_iff)
next
  case (Cons t incs)
  define s1 where "s1 = s\<lparr>waiting_times_increase := increase_list t s,
                  waiting_times_decrease := decrease_list t s,
                  results := (results s)
                    ((t, ''increase'') \<mapsto> increase_list t s,
                     (t, ''decrease'') \<mapsto> decrease_list t s)\<rparr>"
  have step: "increment_body n t s = Inr s1"
    unfolding s1_def using increment_body_eq[OF Cons.prems, of t] Cons.prems by simp
  have d1: "data s1 = data s" by (simp add: s1_def)
  have r1: "results s1 = (results s)
                    ((t, ''increase'') \<mapsto> increase_list t s,
                     (t, ''decrease'') \<mapsto> decrease_list t s)"
    by (simp add: s1_def)
  have n1: "n = length (data s1)" using Cons.prems d1 by simp
  have il: "increase_list t' s1 = increase_list t' s" for t'
    by (simp add: d1 increase_waiting_time_cong[OF d1])
  have dl: "decrease_list t' s1 = decrease_list t' s" for t'
    by (simp add: d1 decrease_waiting_time_cong[OF d1])
  from Cons.IH[OF n1] obtain s' where
    s': "for_each incs (increment_body n) s1 = Inr s'" "data s' = data s1"
      "results s' =
             (\<lambda>(t, d). if t \<in> set incs \<and> d = ''increase'' then Some (increase_list t s1)
                       else if t \<in> set incs \<and> d = ''decrease'' then Some (decrease_list t s1)
                       else results s1 (t, d))"
    by blast
  have "for_each (t # incs) (increment_body n) s = Inr s'"
    by (simp add: step s'(1))
  moreover have "data s' = data s" using s'(2) d1 by simp
  moreover have "results s' =
             (\<lambda>(t', d). if t' \<in> set (t # incs) \<and> d = ''increase'' then Some (increase_list t' s)
                       else if t' \<in> set (t # incs) \<and> d = ''decrease'' then Some (decrease_list t' s)
                       else results s (t', d))"
    unfolding s'(3) il dl r1 by (auto simp: fun_eq_iff)
  ultimately show ?case by blast
qed

lemma run_calculate_eq:
  "\<exists>s'. run_calculate incs s = Inr s' \<and> data s' = data s \<and>
         results s' =
           (\<lambda>(t, d). if t \<in> set incs \<and> d = ''increase'' then Some (increase_list t s)
                     else if t \<in> set incs \<and> d = ''decrease'' then Some (decrease_list t s)
                     else None)"
proof -
  let ?s0 = "s\<lparr>results := Map.empty\<rparr>"
  have "length (data ?s0) = length (data ?s0)" ..
  from for_each_increment[OF this, of incs] obtain s' where
    s': "for_each incs (increment_body (length (data ?s0))) ?s0 = Inr s'" "data s' = data ?s0"
      "results s' =
         (\<lambda>(t, d). if t \<in> set incs \<and> d = ''increase'' then Some (increase_list t ?s0)
                   else if t \<in> set incs \<and> d = ''decrease'' then Some (decrease_list t ?s0)
                   else results ?s0 (t, d))"
    by blast
  have "run_calculate incs s = Inr s'"
    using s'(1) by (simp add: run_calculate_def)
  moreover have "data s' = data s" using s'(2) by simp
  moreover have "results s' =
           (\<lambda>(t, d). if t \<in> set incs \<and> d = ''increase'' then Some (increase_list t s)
                     else if t \<in> set incs \<and> d = ''decrease'' then Some (decrease_list t s)
                     else None)"
    unfolding s'(3) by (simp add: fun_eq_iff)
  ultimately show ?thesis by blast
qed

lemma calculate_eq:
  "calculate_waiting_times_both_directions xs incs =
     Inr (\<lambda>(t, d). if t \<in> set incs \<and> d = ''increase'' then Some (increase_list t (call_env xs))
                   else if t \<in> set incs \<and> d = ''decrease'' then Some (decrease_list t (call_env xs))
                   else None)"
proof -
  from run_calculate_eq[of incs "call_env xs"] obtain s' where
    s': "run_calculate incs (call_env xs) = Inr s'"
      "results s' =
         (\<lambda>(t, d). if t \<in> set incs \<and> d = ''increase'' then Some (increase_list t (call_env xs))
                   else if t \<in> set incs \<and> d = ''decrease'' then Some (decrease_list t (call_env xs))
                   else None)"
    by blast
  show ?thesis
    unfolding calculate_waiting_times_both_directions_def s'(1) s'(2)[symmetric] by simp
qed

lemma entry_calculate:
  assumes "t \<in> set incs" and "i < length xs"
  shows "entry (calculate_waiting_times_both_directions xs incs) t ''increase'' i =
           Some (projr (increase_waiting_time t i (call_env xs)))"
    and "entry (calculate_waiting_times_both_directions xs incs) t ''decrease'' i =
           Some (projr (decrease_waiting_time t i (call_env xs)))"
  using assms unfolding calculate_eq entry_def by simp_all

lemma entry_char:
  assumes "t \<in> set incs" and "i < length xs"
  shows "\<exists>w. entry (calculate_waiting_times_both_directions xs incs) t (direction_key d) i = Some w \<and>
           (\<forall>k. w = Offset k \<longleftrightarrow>
                  i + k < length xs \<and> crosses_float64 d xs t i k \<and> (\<forall>j<k. \<not> crosses_float64 d xs t i j)) \<and>
           (w = Np_inf \<longleftrightarrow> (\<forall>k. i + k < length xs \<longrightarrow> \<not> crosses_float64 d xs t i k))"
proof (cases d)
  case Rising
  have "i < length (data (call_env xs))" using assms(2) by simp
  from increase_waiting_time_char[OF this, of t] obtain w where
    w: "increase_waiting_time t i (call_env xs) = Inr w"
      "\<forall>k. w = Offset k \<longleftrightarrow>
                  i + k < length xs \<and> crosses_float64 Rising xs t i k \<and> (\<forall>j<k. \<not> crosses_float64 Rising xs t i j)"
      "w = Np_inf \<longleftrightarrow> (\<forall>k. i + k < length xs \<longrightarrow> \<not> crosses_float64 Rising xs t i k)"
    by auto
  have "entry (calculate_waiting_times_both_directions xs incs) t (direction_key d) i = Some w"
    using entry_calculate(1)[OF assms] w(1) Rising by simp
  with w(2,3) Rising show ?thesis by blast
next
  case Falling
  have "i < length (data (call_env xs))" using assms(2) by simp
  from decrease_waiting_time_char[OF this, of t] obtain w where
    w: "decrease_waiting_time t i (call_env xs) = Inr w"
      "\<forall>k. w = Offset k \<longleftrightarrow>
                  i + k < length xs \<and> crosses_float64 Falling xs t i k \<and> (\<forall>j<k. \<not> crosses_float64 Falling xs t i j)"
      "w = Np_inf \<longleftrightarrow> (\<forall>k. i + k < length xs \<longrightarrow> \<not> crosses_float64 Falling xs t i k)"
    by auto
  have "entry (calculate_waiting_times_both_directions xs incs) t (direction_key d) i = Some w"
    using entry_calculate(2)[OF assms] w(1) Falling by simp
  with w(2,3) Falling show ?thesis by blast
qed

lemma Inr_projr_waiting_time:
  assumes "i < length (data s)"
  shows "Inr (projr (increase_waiting_time t i s)) = increase_waiting_time t i s"
    and "Inr (projr (decrease_waiting_time t i s)) = decrease_waiting_time t i s"
proof -
  from increase_waiting_time_char[OF assms, of t] obtain w where
    "increase_waiting_time t i s = Inr w" by blast
  then show "Inr (projr (increase_waiting_time t i s)) = increase_waiting_time t i s" by simp
  from decrease_waiting_time_char[OF assms, of t] obtain w' where
    "decrease_waiting_time t i s = Inr w'" by blast
  then show "Inr (projr (decrease_waiting_time t i s)) = decrease_waiting_time t i s" by simp
qed

lemma dom_calculate:
  "dom (\<lambda>(t, d). if t \<in> set incs \<and> d = ''increase'' then Some (f t)
                  else if t \<in> set incs \<and> d = ''decrease'' then Some (g t)
                  else None)
     = set incs \<times> {''increase'', ''decrease''}"
  by (auto simp: dom_def split: if_splits)

lemma waiting_time_lists_cong:
  assumes "data s' = data s"
  shows "increase_list t s' = increase_list t s" and "decrease_list t s' = decrease_list t s"
  using assms
  by (simp_all add: increase_waiting_time_cong[OF assms] decrease_waiting_time_cong[OF assms])

subsection \<open>The naive forward scan\<close>

lemma first_crossing_Offset:
  "first_crossing P m = Offset j \<longleftrightarrow>
     1 \<le> j \<and> j < m \<and> P j \<and> (\<forall>k. 1 \<le> k \<and> k < j \<longrightarrow> \<not> P k)"
proof -
  let ?js = "[1..<m]"
  have "List.find P ?js = Some j \<longleftrightarrow>
          1 \<le> j \<and> j < m \<and> P j \<and> (\<forall>k. 1 \<le> k \<and> k < j \<longrightarrow> \<not> P k)"
  proof
    assume "List.find P ?js = Some j"
    then obtain a where a: "a < length ?js" "P (?js ! a)" "j = ?js ! a" "\<forall>b<a. \<not> P (?js ! b)"
      unfolding find_Some_iff by blast
    from a(1) have ja: "?js ! a = 1 + a" by simp
    have "\<not> P k" if "1 \<le> k" "k < j" for k
    proof -
      from that a(3) ja have "k - 1 < a" by simp
      moreover from this a(1) have "?js ! (k - 1) = k" using that(1) by simp
      ultimately show ?thesis using a(4) by metis
    qed
    with a ja show "1 \<le> j \<and> j < m \<and> P j \<and> (\<forall>k. 1 \<le> k \<and> k < j \<longrightarrow> \<not> P k)"
      by auto
  next
    assume r: "1 \<le> j \<and> j < m \<and> P j \<and> (\<forall>k. 1 \<le> k \<and> k < j \<longrightarrow> \<not> P k)"
    then have l: "j - 1 < length ?js" by auto
    then have n: "?js ! (j - 1) = j" using r by simp
    have "\<forall>b<j - 1. \<not> P (?js ! b)"
    proof (intro allI impI)
      fix b assume "b < j - 1"
      with l have "?js ! b = 1 + b" "1 + b < j" by auto
      with r show "\<not> P (?js ! b)" by simp
    qed
    with l n r show "List.find P ?js = Some j"
      unfolding find_Some_iff by (intro exI[of _ "j - 1"]) simp
  qed
  then show ?thesis
    by (auto simp: first_crossing_def split: option.splits)
qed

lemma first_crossing_Np_inf:
  "first_crossing P m = Np_inf \<longleftrightarrow> (\<forall>j. 1 \<le> j \<and> j < m \<longrightarrow> \<not> P j)"
proof -
  have "List.find P [1..<m] = None \<longleftrightarrow> (\<forall>j. 1 \<le> j \<and> j < m \<longrightarrow> \<not> P j)"
    unfolding find_None_iff by auto
  then show ?thesis
    by (auto simp: first_crossing_def split: option.splits)
qed

subsection \<open>Concrete float64 values\<close>

lemma ulp_1e16_minus_1: "ulp_exponent 9999999999999999 = 1"
  using ulp_exponent_eqI[of 53 9999999999999999] by simp

lemma round64_1e16_minus_1: "round64 9999999999999999 = 10000000000000000"
  by (simp add: round64_def ulp_1e16_minus_1 round_half_even_def)

lemma ulp_2e16: "ulp_exponent 20000000000000000 = 2"
  using ulp_exponent_eqI[of 54 20000000000000000] by simp

lemma round64_2e16: "round64 20000000000000000 = 20000000000000000"
proof -
  have "(20000000000000000::real)
      = of_int 5000000000000000 * (2::real) powr of_int (ulp_exponent 20000000000000000)"
    by (simp add: ulp_2e16)
  then show ?thesis by (rule round64_exact)
qed

lemma val_1e16: "val (float64_of 10000000000000000) = 10000000000000000"
  by (intro val_float64_of round64_1e16) (simp add: max_float64_def)

lemma val_2e16: "val (float64_of 20000000000000000) = 20000000000000000"
  by (intro val_float64_of round64_2e16) (simp add: max_float64_def)

lemmas float64_literals =
  val_float64_of_Ints float64_of_eq_iff_Ints round64_Ints val_1e16 val_2e16
  round64_1e16 round64_1e16_plus_1 round64_1e16_minus_1 float_ge_add float_le_sub

lemmas entry_eval =
  entry_calculate increase_waiting_time_def decrease_waiting_time_def np_argmax_def

section \<open>The claims\<close>

subsection \<open>C1: the naive forward scan\<close>

text \<open>
  Claim C1 says that for every positive threshold the stored waiting time equals the
  result of the naive forward scan, the smallest offset \<open>j \<ge> 1\<close> with
  \<open>data[i+j] \<ge> data[i] + threshold\<close>. The source computes the target as a float64
  sum and lets the slice begin at \<open>i\<close>: with the prices 10000000000000000 and
  20000000000000000 and the threshold 1 the sum at start index 0 is rounded back to
  10000000000000000, the start value itself reaches the target, and the function stores 0
  where the naive forward scan gives 1.
\<close>

theorem naive_forward_scan_counterexample:
  "0 < val (float64_of 1) \<and> float64_of 1 \<in> set [float64_of 1] \<and>
   (0::nat) < length [float64_of 10000000000000000, float64_of 20000000000000000] \<and>
   entry (calculate_waiting_times_both_directions
            [float64_of 10000000000000000, float64_of 20000000000000000] [float64_of 1])
     (float64_of 1) (direction_key Rising) 0 = Some (Offset 0) \<and>
   naive_forward_scan Rising
     [float64_of 10000000000000000, float64_of 20000000000000000] (float64_of 1) 0 = Offset 1"
  by (simp add: entry_eval naive_forward_scan_def first_crossing_def upt_conv_Cons float64_literals)

text \<open>
  Claim C1 as amended. For every series of float64 values of length at least 1, every
  positive threshold listed in the increments, every direction and every start index
  \<open>i\<close> at which the threshold is not absorbed by the rounding (the start value does not
  itself reach the float64 target), the stored waiting time equals the result of the
  naive forward scan against the float64 target: the smallest offset \<open>j \<ge> 1\<close> at which
  \<open>data[i+j]\<close> reaches the float64 sum \<open>data[i] + threshold\<close> (Rising) or the float64
  difference \<open>data[i] - threshold\<close> (Falling), and \<^verbatim>\<open>np.inf\<close> exactly when no such
  \<open>j \<le> n - 1 - i\<close> exists.
\<close>

theorem waiting_time_equals_float64_forward_scan:
  assumes "0 < val threshold" and "threshold \<in> set increments" and "i < length series"
    and "\<not> crosses_float64 d series threshold i 0"
  shows "entry (calculate_waiting_times_both_directions series increments)
             threshold (direction_key d) i
           = Some (naive_forward_scan_float64 d series threshold i)
         \<and> (\<forall>j. naive_forward_scan_float64 d series threshold i = Offset j \<longleftrightarrow>
                 1 \<le> j \<and> i + j < length series \<and> crosses_float64 d series threshold i j \<and>
                 (\<forall>k. 1 \<le> k \<and> k < j \<longrightarrow> \<not> crosses_float64 d series threshold i k))
         \<and> (naive_forward_scan_float64 d series threshold i = Np_inf \<longleftrightarrow>
               \<not> (\<exists>j. 1 \<le> j \<and> j \<le> length series - 1 - i \<and>
                       crosses_float64 d series threshold i j))"
proof -
  from entry_char[OF assms(2,3), of d] obtain w where
    e: "entry (calculate_waiting_times_both_directions series increments)
          threshold (direction_key d) i = Some w"
    and fin: "\<And>k. w = Offset k \<longleftrightarrow>
          i + k < length series \<and> crosses_float64 d series threshold i k \<and>
          (\<forall>j<k. \<not> crosses_float64 d series threshold i j)"
    and inf: "w = Np_inf \<longleftrightarrow>
          (\<forall>k. i + k < length series \<longrightarrow> \<not> crosses_float64 d series threshold i k)"
    by blast
  note no0 = assms(4)
  have range: "(1 \<le> j \<and> j < length series - i) = (1 \<le> j \<and> i + j < length series)" for j
    by auto
  have scan_fin: "naive_forward_scan_float64 d series threshold i = Offset j \<longleftrightarrow>
                 1 \<le> j \<and> i + j < length series \<and> crosses_float64 d series threshold i j \<and>
                 (\<forall>k. 1 \<le> k \<and> k < j \<longrightarrow> \<not> crosses_float64 d series threshold i k)" for j
    unfolding naive_forward_scan_float64_def first_crossing_Offset using range[of j] by blast
  have scan_inf: "naive_forward_scan_float64 d series threshold i = Np_inf \<longleftrightarrow>
      (\<forall>j. 1 \<le> j \<and> i + j < length series \<longrightarrow> \<not> crosses_float64 d series threshold i j)"
    unfolding naive_forward_scan_float64_def first_crossing_Np_inf using range by blast
  have "w = naive_forward_scan_float64 d series threshold i"
  proof (cases w)
    case (Offset k)
    with fin[of k] have k: "i + k < length series" "crosses_float64 d series threshold i k"
      "\<forall>j<k. \<not> crosses_float64 d series threshold i j" by auto
    from k(2) no0 have "1 \<le> k" by (cases k) auto
    with k have "naive_forward_scan_float64 d series threshold i = Offset k"
      unfolding scan_fin by simp
    with Offset show ?thesis by simp
  next
    case Np_inf
    with inf have "\<forall>k. i + k < length series \<longrightarrow> \<not> crosses_float64 d series threshold i k"
      by simp
    then have "naive_forward_scan_float64 d series threshold i = Np_inf"
      unfolding scan_inf by simp
    with Np_inf show ?thesis by simp
  qed
  with e have "entry (calculate_waiting_times_both_directions series increments)
             threshold (direction_key d) i
           = Some (naive_forward_scan_float64 d series threshold i)" by simp
  moreover have "\<forall>j. naive_forward_scan_float64 d series threshold i = Offset j \<longleftrightarrow>
                 1 \<le> j \<and> i + j < length series \<and> crosses_float64 d series threshold i j \<and>
                 (\<forall>k. 1 \<le> k \<and> k < j \<longrightarrow> \<not> crosses_float64 d series threshold i k)"
    using scan_fin by blast
  moreover have "naive_forward_scan_float64 d series threshold i = Np_inf \<longleftrightarrow>
               \<not> (\<exists>j. 1 \<le> j \<and> j \<le> length series - 1 - i \<and>
                       crosses_float64 d series threshold i j)"
  proof -
    have "(1 \<le> j \<and> j \<le> length series - 1 - i) = (1 \<le> j \<and> i + j < length series)" for j
      using assms(3) by auto
    then show ?thesis unfolding scan_inf by blast
  qed
  ultimately show ?thesis by blast
qed

text \<open>The first scenario of the specification: series 100, 102, 101, 105, 99 and threshold 5.\<close>

theorem waiting_time_equals_float64_forward_scan_witness:
  "0 < val (float64_of 5) \<and> float64_of 5 \<in> set [float64_of 5] \<and> (0::nat) < length scenario
   \<and> \<not> crosses_float64 Rising scenario (float64_of 5) 0 0
   \<and> entry (calculate_waiting_times_both_directions scenario [float64_of 5])
        (float64_of 5) (direction_key Rising) 0
      = Some (naive_forward_scan_float64 Rising scenario (float64_of 5) 0)
   \<and> naive_forward_scan_float64 Rising scenario (float64_of 5) 0 = Offset 3
   \<and> naive_forward_scan_float64 Falling scenario (float64_of 5) 0 = Np_inf"
proof -
  have h: "0 < val (float64_of 5)" "float64_of 5 \<in> set [float64_of 5]"
    "(0::nat) < length scenario" "\<not> crosses_float64 Rising scenario (float64_of 5) 0 0"
    by (simp_all add: float64_literals)
  have "naive_forward_scan_float64 Rising scenario (float64_of 5) 0 = Offset 3"
    by (simp add: naive_forward_scan_float64_def first_crossing_def upt_conv_Cons float64_literals)
  moreover have "naive_forward_scan_float64 Falling scenario (float64_of 5) 0 = Np_inf"
    by (simp add: naive_forward_scan_float64_def first_crossing_def upt_conv_Cons float64_literals)
  ultimately show ?thesis
    using h waiting_time_equals_float64_forward_scan[OF h] by blast
qed

subsection \<open>C4: the last start index\<close>

text \<open>
  Claim C4 says that for every positive threshold the entry at the last start index is
  \<^verbatim>\<open>np.inf\<close>. At the last index the slice holds the start value alone; for the series
  that consists of 10000000000000000 and the threshold 1 the float64 sum and the float64
  difference are both 10000000000000000 again, and the function stores 0 in both directions.
\<close>

theorem last_index_counterexample:
  "0 < val (float64_of 1) \<and> float64_of 1 \<in> set [float64_of 1] \<and>
   [float64_of 10000000000000000] \<noteq> [] \<and>
   entry (calculate_waiting_times_both_directions [float64_of 10000000000000000] [float64_of 1])
     (float64_of 1) (direction_key Rising) (length [float64_of 10000000000000000] - 1)
     = Some (Offset 0) \<and>
   entry (calculate_waiting_times_both_directions [float64_of 10000000000000000] [float64_of 1])
     (float64_of 1) (direction_key Falling) (length [float64_of 10000000000000000] - 1)
     = Some (Offset 0)"
  by (simp add: entry_eval float64_literals)

text \<open>
  Claim C4 as amended. For every non-empty series of float64 values, every positive
  threshold listed in the increments and both directions, the entry at start index
  \<open>n - 1\<close> is \<^verbatim>\<open>np.inf\<close>, unless the threshold is absorbed by the rounding at the last
  value (the last value itself reaches the float64 target), in which case the entry is 0.
\<close>

theorem last_index_entry:
  assumes "0 < val threshold" and "threshold \<in> set increments" and "series \<noteq> []"
  shows "entry (calculate_waiting_times_both_directions series increments)
           threshold (direction_key d) (length series - 1)
         = Some (if crosses_float64 d series threshold (length series - 1) 0
                 then Offset 0 else Np_inf)"
proof -
  let ?i = "length series - 1"
  have i: "?i < length series" using assms(3) by simp
  from entry_char[OF assms(2) i, of d] obtain w where
    e: "entry (calculate_waiting_times_both_directions series increments)
          threshold (direction_key d) ?i = Some w"
    and fin: "\<And>k. w = Offset k \<longleftrightarrow>
          ?i + k < length series \<and> crosses_float64 d series threshold ?i k \<and>
          (\<forall>j<k. \<not> crosses_float64 d series threshold ?i j)"
    and inf: "w = Np_inf \<longleftrightarrow>
          (\<forall>k. ?i + k < length series \<longrightarrow> \<not> crosses_float64 d series threshold ?i k)"
    by blast
  have only0: "k = 0" if "?i + k < length series" for k using that by simp
  show ?thesis
  proof (cases "crosses_float64 d series threshold ?i 0")
    case True
    with fin[of 0] i have "w = Offset 0" by simp
    with e True show ?thesis by simp
  next
    case False
    have "\<not> crosses_float64 d series threshold ?i k" if "?i + k < length series" for k
      using only0[OF that] False by simp
    with inf have "w = Np_inf" by blast
    with e False show ?thesis by simp
  qed
qed

theorem last_index_entry_witness:
  "0 < val (float64_of 5) \<and> float64_of 5 \<in> set [float64_of 5] \<and> scenario \<noteq> []
   \<and> \<not> crosses_float64 Falling scenario (float64_of 5) (length scenario - 1) 0
   \<and> entry (calculate_waiting_times_both_directions scenario [float64_of 5])
        (float64_of 5) (direction_key Falling) (length scenario - 1) = Some Np_inf"
proof -
  have h: "0 < val (float64_of 5)" "float64_of 5 \<in> set [float64_of 5]" "scenario \<noteq> []"
    by (simp_all add: float64_literals)
  have n: "\<not> crosses_float64 Falling scenario (float64_of 5) (length scenario - 1) 0"
    by (simp add: float64_literals)
  show ?thesis
    using h n last_index_entry[OF h, of Falling] by (simp only: if_False) blast
qed

subsection \<open>C5: the comparison is inclusive\<close>




subsection \<open>C6: a larger threshold is not reached sooner\<close>

text \<open>
  Claim C6. For the increase direction, every series, every start index and two
  positive thresholds \<open>threshold1 < threshold2\<close> listed in the increments: either both
  entries are finite and the one for \<open>threshold2\<close> is at least the one for
  \<open>threshold1\<close>, or the entry for \<open>threshold1\<close> is finite and the one for
  \<open>threshold2\<close> is \<^verbatim>\<open>np.inf\<close>, or both are \<^verbatim>\<open>np.inf\<close>.
\<close>

theorem rising_monotone_in_threshold:
  assumes "0 < val threshold1" and "val threshold1 < val threshold2"
    and "threshold1 \<in> set increments" and "threshold2 \<in> set increments"
    and "i < length series"
  shows "\<exists>w1 w2.
           entry (calculate_waiting_times_both_directions series increments)
             threshold1 ''increase'' i = Some w1 \<and>
           entry (calculate_waiting_times_both_directions series increments)
             threshold2 ''increase'' i = Some w2 \<and>
           ((\<exists>a b. w1 = Offset a \<and> w2 = Offset b \<and> a \<le> b) \<or>
            (\<exists>a. w1 = Offset a \<and> w2 = Np_inf) \<or>
            (w1 = Np_inf \<and> w2 = Np_inf))"
proof -
  from entry_char[OF assms(3,5), of Rising] obtain w1 where
    e1: "entry (calculate_waiting_times_both_directions series increments)
          threshold1 ''increase'' i = Some w1"
    and fin1: "\<And>k. w1 = Offset k \<longleftrightarrow>
          i + k < length series \<and> crosses_float64 Rising series threshold1 i k \<and>
          (\<forall>j<k. \<not> crosses_float64 Rising series threshold1 i j)"
    and inf1: "w1 = Np_inf \<longleftrightarrow>
          (\<forall>k. i + k < length series \<longrightarrow> \<not> crosses_float64 Rising series threshold1 i k)"
    by auto
  from entry_char[OF assms(4,5), of Rising] obtain w2 where
    e2: "entry (calculate_waiting_times_both_directions series increments)
          threshold2 ''increase'' i = Some w2"
    and fin2: "\<And>k. w2 = Offset k \<longleftrightarrow>
          i + k < length series \<and> crosses_float64 Rising series threshold2 i k \<and>
          (\<forall>j<k. \<not> crosses_float64 Rising series threshold2 i j)"
    by auto
  have mono: "crosses_float64 Rising series threshold1 i k" if "crosses_float64 Rising series threshold2 i k" for k
    using assms(2) that by (intro crosses_float64_Rising_mono[of threshold1 threshold2]) simp_all
  have "(\<exists>a b. w1 = Offset a \<and> w2 = Offset b \<and> a \<le> b) \<or>
        (\<exists>a. w1 = Offset a \<and> w2 = Np_inf) \<or> (w1 = Np_inf \<and> w2 = Np_inf)"
  proof (cases w2)
    case (Offset b)
    with fin2[of b] have b: "i + b < length series" "crosses_float64 Rising series threshold2 i b" by auto
    from mono[OF b(2)] b(1) inf1 have "w1 \<noteq> Np_inf" by blast
    then obtain a where a: "w1 = Offset a" by (cases w1) auto
    with fin1[of a] have "\<forall>j<a. \<not> crosses_float64 Rising series threshold1 i j" by auto
    with mono[OF b(2)] have "\<not> b < a" by blast
    with a Offset show ?thesis by simp
  next
    case Np_inf
    then show ?thesis by (cases w1) auto
  qed
  with e1 e2 show ?thesis by blast
qed

theorem rising_monotone_in_threshold_witness:
  "0 < val (float64_of 1) \<and> val (float64_of 1) < val (float64_of 5)
   \<and> float64_of 1 \<in> set [float64_of 1, float64_of 5]
   \<and> float64_of 5 \<in> set [float64_of 1, float64_of 5]
   \<and> (0::nat) < length scenario
   \<and> entry (calculate_waiting_times_both_directions scenario [float64_of 1, float64_of 5])
        (float64_of 1) ''increase'' 0 = Some (Offset 1)
   \<and> entry (calculate_waiting_times_both_directions scenario [float64_of 1, float64_of 5])
        (float64_of 5) ''increase'' 0 = Some (Offset 3)"
proof -
  have h: "0 < val (float64_of 1)" "val (float64_of 1) < val (float64_of 5)"
    "float64_of 1 \<in> set [float64_of 1, float64_of 5]"
    "float64_of 5 \<in> set [float64_of 1, float64_of 5]"
    "(0::nat) < length scenario"
    by (simp_all add: float64_literals)
  from rising_monotone_in_threshold[OF h] obtain w1 w2 where
    w: "entry (calculate_waiting_times_both_directions scenario [float64_of 1, float64_of 5])
          (float64_of 1) ''increase'' 0 = Some w1"
       "entry (calculate_waiting_times_both_directions scenario [float64_of 1, float64_of 5])
          (float64_of 5) ''increase'' 0 = Some w2"
    by blast
  have "entry (calculate_waiting_times_both_directions scenario [float64_of 1, float64_of 5])
        (float64_of 1) ''increase'' 0 = Some (Offset 1)"
    by (simp add: entry_eval float64_literals)
  moreover have "entry (calculate_waiting_times_both_directions scenario [float64_of 1, float64_of 5])
        (float64_of 5) ''increase'' 0 = Some (Offset 3)"
    by (simp add: entry_eval float64_literals)
  ultimately show ?thesis using h w by (intro conjI)
qed

subsection \<open>C10: thresholds that are not positive\<close>

text \<open>
  Claim C10. The slice \<^verbatim>\<open>data[i:]\<close> begins at the start index itself and the
  comparison is inclusive, so for a threshold \<open>\<le> 0\<close> listed in the increments the
  entry is 0 at every start index of a non-empty series, in both directions.
\<close>

theorem nonpositive_threshold_waiting_time_zero:
  assumes "val threshold \<le> 0" and "threshold \<in> set increments" and "i < length series"
  shows "entry (calculate_waiting_times_both_directions series increments)
           threshold (direction_key d) i = Some (Offset 0)"
proof -
  from entry_char[OF assms(2,3), of d] obtain w where
    e: "entry (calculate_waiting_times_both_directions series increments)
          threshold (direction_key d) i = Some w"
    and fin: "\<And>k. w = Offset k \<longleftrightarrow>
          i + k < length series \<and> crosses_float64 d series threshold i k \<and>
          (\<forall>j<k. \<not> crosses_float64 d series threshold i j)"
    by blast
  have "crosses_float64 d series threshold i 0" using assms(1) by (rule crosses_float64_0)
  with fin[of 0] assms(3) have "w = Offset 0" by simp
  with e show ?thesis by simp
qed

theorem nonpositive_threshold_waiting_time_zero_witness:
  "val (float64_of (- 1)) \<le> 0 \<and> float64_of (- 1) \<in> set [float64_of (- 1)]
   \<and> (4::nat) < length scenario
   \<and> entry (calculate_waiting_times_both_directions scenario [float64_of (- 1)])
        (float64_of (- 1)) (direction_key Rising) 4 = Some (Offset 0)"
proof -
  have h: "val (float64_of (- 1)) \<le> 0" "float64_of (- 1) \<in> set [float64_of (- 1)]"
    "(4::nat) < length scenario"
    by (simp_all add: float64_literals)
  show ?thesis
    using h nonpositive_threshold_waiting_time_zero[OF h, of Rising] by (intro conjI)
qed

subsection \<open>C7: the shape of the returned dictionary\<close>

text \<open>
  Claim C7. For every series of length \<open>n\<close> and every list of thresholds the call
  returns a dictionary whose keys are exactly the pairs of a listed threshold and one of
  the two directions \<^verbatim>\<open>"increase"\<close> and \<^verbatim>\<open>"decrease"\<close>; each key holds a sequence
  of exactly \<open>n\<close> waiting times, and the one at position \<open>i\<close> is the waiting time
  that the loop body computes for start index \<open>i\<close>.
\<close>

theorem matrix_shape:
  "\<exists>m. calculate_waiting_times_both_directions series increments = Inr m \<and>
       dom m = set increments \<times> {''increase'', ''decrease''} \<and>
       (\<forall>t\<in>set increments.
          (\<exists>ws. m (t, ''increase'') = Some ws \<and> length ws = length series \<and>
                (\<forall>i<length series. increase_waiting_time t i (call_env series) = Inr (ws ! i))) \<and>
          (\<exists>ws. m (t, ''decrease'') = Some ws \<and> length ws = length series \<and>
                (\<forall>i<length series. decrease_waiting_time t i (call_env series) = Inr (ws ! i))))"
proof -
  define m where "m = (\<lambda>(t, d).
      if t \<in> set increments \<and> d = ''increase'' then Some (increase_list t (call_env series))
      else if t \<in> set increments \<and> d = ''decrease'' then Some (decrease_list t (call_env series))
      else None)"
  have c: "calculate_waiting_times_both_directions series increments = Inr m"
    unfolding m_def by (rule calculate_eq)
  have d: "dom m = set increments \<times> {''increase'', ''decrease''}"
    unfolding m_def by (rule dom_calculate)
  have e: "(\<exists>ws. m (t, ''increase'') = Some ws \<and> length ws = length series \<and>
                (\<forall>i<length series. increase_waiting_time t i (call_env series) = Inr (ws ! i))) \<and>
          (\<exists>ws. m (t, ''decrease'') = Some ws \<and> length ws = length series \<and>
                (\<forall>i<length series. decrease_waiting_time t i (call_env series) = Inr (ws ! i)))"
    if t: "t \<in> set increments" for t
  proof (intro conjI)
    have "m (t, ''increase'') = Some (increase_list t (call_env series))"
      using t by (simp add: m_def)
    moreover have "length (increase_list t (call_env series)) = length series" by simp
    moreover have "\<forall>i<length series.
        increase_waiting_time t i (call_env series) = Inr (increase_list t (call_env series) ! i)"
      by (simp add: Inr_projr_waiting_time(1))
    ultimately show "\<exists>ws. m (t, ''increase'') = Some ws \<and> length ws = length series \<and>
                (\<forall>i<length series. increase_waiting_time t i (call_env series) = Inr (ws ! i))"
      by blast
    have "m (t, ''decrease'') = Some (decrease_list t (call_env series))"
      using t by (simp add: m_def)
    moreover have "length (decrease_list t (call_env series)) = length series" by simp
    moreover have "\<forall>i<length series.
        decrease_waiting_time t i (call_env series) = Inr (decrease_list t (call_env series) ! i)"
      by (simp add: Inr_projr_waiting_time(2))
    ultimately show "\<exists>ws. m (t, ''decrease'') = Some ws \<and> length ws = length series \<and>
                (\<forall>i<length series. decrease_waiting_time t i (call_env series) = Inr (ws ! i))"
      by blast
  qed
  show ?thesis
  proof (intro exI[of _ m] conjI ballI)
    show "calculate_waiting_times_both_directions series increments = Inr m" by (rule c)
    show "dom m = set increments \<times> {''increase'', ''decrease''}" by (rule d)
    show "\<exists>ws. m (t, ''increase'') = Some ws \<and> length ws = length series \<and>
                (\<forall>i<length series. increase_waiting_time t i (call_env series) = Inr (ws ! i))"
      if "t \<in> set increments" for t using e[OF that] by (rule conjunct1)
    show "\<exists>ws. m (t, ''decrease'') = Some ws \<and> length ws = length series \<and>
                (\<forall>i<length series. decrease_waiting_time t i (call_env series) = Inr (ws ! i))"
      if "t \<in> set increments" for t using e[OF that] by (rule conjunct2)
  qed
qed

theorem matrix_shape_witness:
  "float64_of 5 \<in> set [float64_of 5] \<and>
   length (the (projr (calculate_waiting_times_both_directions scenario [float64_of 5])
                  (float64_of 5, ''increase''))) = length scenario \<and>
   increase_waiting_time (float64_of 5) 0 (call_env scenario) =
     Inr (the (projr (calculate_waiting_times_both_directions scenario [float64_of 5])
                  (float64_of 5, ''increase'')) ! 0)"
proof -
  have h: "float64_of 5 \<in> set [float64_of 5]" by simp
  from matrix_shape[of "scenario" "[float64_of 5]"] obtain m where
    m: "calculate_waiting_times_both_directions scenario [float64_of 5] = Inr m"
    and a: "\<forall>t\<in>set [float64_of 5].
          (\<exists>ws. m (t, ''increase'') = Some ws \<and> length ws = length scenario \<and>
                (\<forall>i<length scenario.
                   increase_waiting_time t i (call_env scenario) = Inr (ws ! i))) \<and>
          (\<exists>ws. m (t, ''decrease'') = Some ws \<and> length ws = length scenario \<and>
                (\<forall>i<length scenario.
                   decrease_waiting_time t i (call_env scenario) = Inr (ws ! i)))"
    by (elim exE conjE)
  from bspec[OF a h] obtain ws where
    ws: "m (float64_of 5, ''increase'') = Some ws" "length ws = length scenario"
      "\<forall>i<length scenario.
         increase_waiting_time (float64_of 5) i (call_env scenario) = Inr (ws ! i)"
    by (elim exE conjE)
  have "(0::nat) < length scenario" by simp
  with ws(3) have w0: "increase_waiting_time (float64_of 5) 0 (call_env scenario) = Inr (ws ! 0)"
    by blast
  have p: "the (projr (calculate_waiting_times_both_directions scenario [float64_of 5])
                  (float64_of 5, ''increase'')) = ws"
    by (simp add: m ws(1))
  show ?thesis unfolding p using h ws(2) w0 by (intro conjI)
qed

subsection \<open>C2: thresholds are not validated\<close>

text \<open>
  Claim C2 says that a threshold \<open>\<le> 0\<close> and a duplicate threshold are rejected with
  \<^verbatim>\<open>InvalidThreshold\<close> before any waiting time is computed, and that no matrix is
  produced. The function has no such check (its docstring only describes the increments
  as positive): with the increments 0, 5, 5 the call returns a dictionary, and the
  waiting times for the threshold 0 have been computed.
\<close>

theorem invalid_threshold_counterexample:
  "\<not> isl (calculate_waiting_times_both_directions [float64_of 1, float64_of 2]
            [float64_of 0, float64_of 5, float64_of 5]) \<and>
   entry (calculate_waiting_times_both_directions [float64_of 1, float64_of 2]
            [float64_of 0, float64_of 5, float64_of 5]) (float64_of 0) ''increase'' 0
     = Some (Offset 0) \<and>
   entry (calculate_waiting_times_both_directions [float64_of 1, float64_of 2]
            [float64_of 0, float64_of 5, float64_of 5]) (float64_of 5) ''increase'' 0
     = Some Np_inf"
  by (simp add: entry_eval float64_literals) (simp add: calculate_eq)

text \<open>
  Claim C2 as amended. No threshold is rejected: for every series and every list of
  thresholds, also with thresholds \<open>\<le> 0\<close> and with duplicates, the call completes and
  returns a matrix whose keys are exactly the listed thresholds paired with the two
  directions; a duplicate threshold gives one pair of keys.
\<close>

theorem no_threshold_rejected:
  "\<exists>m. calculate_waiting_times_both_directions series increments = Inr m \<and>
       dom m = set increments \<times> {''increase'', ''decrease''}"
proof -
  define m where "m = (\<lambda>(t, d).
      if t \<in> set increments \<and> d = ''increase'' then Some (increase_list t (call_env series))
      else if t \<in> set increments \<and> d = ''decrease'' then Some (decrease_list t (call_env series))
      else None)"
  have "calculate_waiting_times_both_directions series increments = Inr m"
    unfolding m_def by (rule calculate_eq)
  moreover have "dom m = set increments \<times> {''increase'', ''decrease''}"
    unfolding m_def by (rule dom_calculate)
  ultimately show ?thesis by (intro exI[of _ m] conjI)
qed

theorem no_threshold_rejected_witness:
  "dom (projr (calculate_waiting_times_both_directions [float64_of 1, float64_of 2]
                 [float64_of 0, float64_of 5, float64_of 5]))
     = {(float64_of 0, ''increase''), (float64_of 0, ''decrease''),
        (float64_of 5, ''increase''), (float64_of 5, ''decrease'')}"
proof -
  from no_threshold_rejected[of "[float64_of 1, float64_of 2]"
      "[float64_of 0, float64_of 5, float64_of 5]"] obtain m where
    m: "calculate_waiting_times_both_directions [float64_of 1, float64_of 2]
          [float64_of 0, float64_of 5, float64_of 5] = Inr m"
    and d: "dom m = set [float64_of 0, float64_of 5, float64_of 5] \<times> {''increase'', ''decrease''}"
    by (elim exE conjE)
  have "set [float64_of 0, float64_of 5, float64_of 5] \<times> {''increase'', ''decrease''}
      = {(float64_of 0, ''increase''), (float64_of 0, ''decrease''),
         (float64_of 5, ''increase''), (float64_of 5, ''decrease'')}"
    by auto
  with m d show ?thesis by simp
qed

subsection \<open>C3: the empty series\<close>

text \<open>
  Claim C3 says that the computation fails, with \<^verbatim>\<open>EmptyInput\<close>, if and only if the
  series has zero length. The function has no such check: on the empty series both
  inner loops run zero times and the call returns a dictionary of empty sequences.
\<close>

theorem empty_input_counterexample:
  "\<not> isl (calculate_waiting_times_both_directions [] [float64_of 5]) \<and>
   projr (calculate_waiting_times_both_directions [] [float64_of 5]) (float64_of 5, ''increase'')
     = Some [] \<and>
   projr (calculate_waiting_times_both_directions [] [float64_of 5]) (float64_of 5, ''decrease'')
     = Some []"
  by (simp add: calculate_eq)

text \<open>
  Claim C3 as amended. The computation never fails: for every series, the one of zero
  length included, and every list of thresholds it returns a matrix in which both
  directions of every listed threshold hold a sequence of exactly \<open>n\<close> waiting times
  (an empty sequence when \<open>n = 0\<close>, a full one when \<open>n \<ge> 1\<close>).
\<close>

theorem never_fails_full_matrix:
  "\<exists>m. calculate_waiting_times_both_directions series increments = Inr m \<and>
       (\<forall>t\<in>set increments. \<forall>d\<in>{''increase'', ''decrease''}.
          \<exists>ws. m (t, d) = Some ws \<and> length ws = length series)"
proof -
  define m where "m = (\<lambda>(t, d).
      if t \<in> set increments \<and> d = ''increase'' then Some (increase_list t (call_env series))
      else if t \<in> set increments \<and> d = ''decrease'' then Some (decrease_list t (call_env series))
      else None)"
  have c: "calculate_waiting_times_both_directions series increments = Inr m"
    unfolding m_def by (rule calculate_eq)
  have "\<exists>ws. m (t, d) = Some ws \<and> length ws = length series"
    if "t \<in> set increments" "d \<in> {''increase'', ''decrease''}" for t d
  proof -
    from that(2) consider "d = ''increase''" | "d = ''decrease''" by blast
    then show ?thesis
    proof cases
      case 1
      with that(1) have "m (t, d) = Some (increase_list t (call_env series))"
        by (simp add: m_def)
      moreover have "length (increase_list t (call_env series)) = length series" by simp
      ultimately show ?thesis by (intro exI conjI)
    next
      case 2
      with that(1) have "m (t, d) = Some (decrease_list t (call_env series))"
        by (simp add: m_def)
      moreover have "length (decrease_list t (call_env series)) = length series" by simp
      ultimately show ?thesis by (intro exI conjI)
    qed
  qed
  with c show ?thesis by (intro exI[of _ m] conjI ballI)
qed

theorem never_fails_full_matrix_witness:
  "float64_of 5 \<in> set [float64_of 5] \<and> ''decrease'' \<in> {''increase'', ''decrease''} \<and>
   length (the (projr (calculate_waiting_times_both_directions [] [float64_of 5]) (float64_of 5, ''decrease'')))
     = length ([] :: float64 list) \<and>
   length (the (projr (calculate_waiting_times_both_directions scenario [float64_of 5])
                  (float64_of 5, ''decrease'')))
     = length scenario"
proof -
  have h: "float64_of 5 \<in> set [float64_of 5]" "''decrease'' \<in> {''increase'', ''decrease''}" by simp_all
  from never_fails_full_matrix[of "[]" "[float64_of 5]"] obtain m where
    m: "calculate_waiting_times_both_directions [] [float64_of 5] = Inr m"
    and a: "\<forall>t\<in>set [float64_of 5]. \<forall>d\<in>{''increase'', ''decrease''}.
          \<exists>ws. m (t, d) = Some ws \<and> length ws = length ([] :: float64 list)"
    by (elim exE conjE)
  from bspec[OF bspec[OF a h(1)] h(2)] obtain ws where
    ws: "m (float64_of 5, ''decrease'') = Some ws" "length ws = length ([] :: float64 list)"
    by (elim exE conjE)
  have p: "the (projr (calculate_waiting_times_both_directions [] [float64_of 5]) (float64_of 5, ''decrease'')) = ws"
    by (simp add: m ws(1))
  from never_fails_full_matrix[of "scenario" "[float64_of 5]"] obtain m' where
    m': "calculate_waiting_times_both_directions scenario [float64_of 5] = Inr m'"
    and a': "\<forall>t\<in>set [float64_of 5]. \<forall>d\<in>{''increase'', ''decrease''}.
          \<exists>ws. m' (t, d) = Some ws \<and> length ws = length scenario"
    by (elim exE conjE)
  from bspec[OF bspec[OF a' h(1)] h(2)] obtain ws' where
    ws': "m' (float64_of 5, ''decrease'') = Some ws'" "length ws' = length scenario"
    by (elim exE conjE)
  have p': "the (projr (calculate_waiting_times_both_directions scenario [float64_of 5])
                  (float64_of 5, ''decrease'')) = ws'"
    by (simp add: m' ws'(1))
  show ?thesis unfolding p p' using h ws(2) ws'(2) by (intro conjI)
qed

subsection \<open>C8: determinism\<close>

text \<open>
  Claim C8. Two runs on the same series values and the same threshold list return the
  same matrix, entry for entry: the runs may start from different contents of the
  dictionary and of the two lists (what an earlier run left behind), both complete, and
  the dictionary they return is the one that the call on that series returns.
\<close>

theorem runs_on_same_inputs_agree:
  assumes "length (data s1) = length (data s2)"
    and "\<forall>i<length (data s1). data s1 ! i = data s2 ! i"
  shows "\<exists>m s1' s2'.
           run_calculate increments s1 = Inr s1' \<and> results s1' = m \<and>
           run_calculate increments s2 = Inr s2' \<and> results s2' = m \<and>
           calculate_waiting_times_both_directions (data s1) increments = Inr m \<and>
           calculate_waiting_times_both_directions (data s2) increments = Inr m"
proof -
  have d: "data s1 = data s2"
    using assms by (intro nth_equalityI) simp_all
  define m where "m = (\<lambda>(t, d).
      if t \<in> set increments \<and> d = ''increase'' then Some (increase_list t s1)
      else if t \<in> set increments \<and> d = ''decrease'' then Some (decrease_list t s1)
      else None)"
  from run_calculate_eq[of increments s1] obtain s1' where
    r1: "run_calculate increments s1 = Inr s1'" and m1: "results s1' = m"
    unfolding m_def by (elim exE conjE)
  have c2: "data s2 = data s1" using d by simp
  from run_calculate_eq[of increments s2] obtain s2' where
    r2: "run_calculate increments s2 = Inr s2'" and m2: "results s2' = m"
    unfolding m_def waiting_time_lists_cong[OF c2] by (elim exE conjE)
  have c3: "data (call_env (data s1)) = data s1" by simp
  have e1: "calculate_waiting_times_both_directions (data s1) increments = Inr m"
    using calculate_eq[of "data s1" increments]
    unfolding m_def waiting_time_lists_cong[OF c3] .
  have e2: "calculate_waiting_times_both_directions (data s2) increments = Inr m"
    using e1 d by simp
  show ?thesis
    using r1 m1 r2 m2 e1 e2 by (intro exI[of _ m] exI[of _ s1'] exI[of _ s2'] conjI)
qed

theorem runs_on_same_inputs_agree_witness:
  "results (projr (run_calculate [float64_of 5] (call_env scenario)))
     = results (projr (run_calculate [float64_of 5]
         \<lparr>data = scenario, results = [(float64_of 7, ''increase'') \<mapsto> [Np_inf]],
          waiting_times_increase = [Offset 3], waiting_times_decrease = [Np_inf, Np_inf]\<rparr>))"
proof -
  let ?s1 = "call_env scenario"
  let ?s2 = "\<lparr>data = scenario, results = [(float64_of 7, ''increase'') \<mapsto> [Np_inf]],
          waiting_times_increase = [Offset 3], waiting_times_decrease = [Np_inf, Np_inf]\<rparr>"
  have h1: "length (data ?s1) = length (data ?s2)" by simp
  have h2: "\<forall>i<length (data ?s1). data ?s1 ! i = data ?s2 ! i" by simp
  from runs_on_same_inputs_agree[OF h1 h2, of "[float64_of 5]"] obtain m s1' s2' where
    "run_calculate [float64_of 5] ?s1 = Inr s1'" "results s1' = m"
    "run_calculate [float64_of 5] ?s2 = Inr s2'" "results s2' = m"
    by (elim exE conjE)
  then show ?thesis by simp
qed

subsection \<open>C9: the input series is not mutated\<close>

text \<open>
  Claim C9. For every input series and threshold list the run completes, and afterwards
  the array \<^verbatim>\<open>data\<close> holds the same elements as before the call.
\<close>

theorem input_series_not_mutated:
  "\<exists>s'. run_calculate increments s = Inr s' \<and> data s' = data s"
proof -
  from run_calculate_eq[of increments s] obtain s' where
    "run_calculate increments s = Inr s'" and "data s' = data s"
    by (elim exE conjE)
  then show ?thesis by (intro exI[of _ s'] conjI)
qed

theorem input_series_not_mutated_witness:
  "data (projr (run_calculate [float64_of 5] (call_env scenario))) = scenario"
proof -
  from input_series_not_mutated[of "[float64_of 5]" "call_env scenario"] obtain s' where
    r: "run_calculate [float64_of 5] (call_env scenario) = Inr s'"
    and d: "data s' = data (call_env scenario)"
    by (elim exE conjE)
  show ?thesis by (simp add: r d)
qed

end
